theory Spec2Isabelle
  imports Main
begin

section \<open>Python strings\<close>

text \<open>
  A Python \<open>str\<close> is a sequence of code points. The model takes the code points below
  256 (Latin-1), one \<^typ>\<open>char\<close> each, so \<open>CHR 0xE9\<close> is the single character
  U+00E9. The two character classes the program consults are tabulated for that range as
  CPython defines them: \<open>str.isspace\<close> (what \<open>str.strip()\<close> removes) and
  \<open>str.isalnum\<close> (letters, decimal digits, and the digit-like and numeric characters
  such as superscript two and the vulgar fractions).
\<close>

definition isspace :: "char \<Rightarrow> bool" where
  "isspace c =
     (let n = (of_char c :: nat)
      in (9 \<le> n \<and> n \<le> 13) \<or> (28 \<le> n \<and> n \<le> 32) \<or> n = 133 \<or> n = 160)"

definition isalnum :: "char \<Rightarrow> bool" where
  "isalnum c =
     (let n = (of_char c :: nat)
      in (48 \<le> n \<and> n \<le> 57) \<or> (65 \<le> n \<and> n \<le> 90) \<or> (97 \<le> n \<and> n \<le> 122)
         \<or> n = 170 \<or> n = 178 \<or> n = 179 \<or> n = 181 \<or> n = 185 \<or> n = 186
         \<or> (188 \<le> n \<and> n \<le> 190) \<or> (192 \<le> n \<and> n \<le> 214)
         \<or> (216 \<le> n \<and> n \<le> 246) \<or> (248 \<le> n \<and> n \<le> 255))"

text \<open>\<open>s.strip()\<close>: drop the whitespace at both ends.\<close>

definition strip :: "string \<Rightarrow> string" where
  "strip s = rev (dropWhile isspace (rev (dropWhile isspace s)))"

text \<open>\<open>str(n)\<close> for a non-negative integer, as the f-string \<open>{counter}\<close> prints it.\<close>

definition digit_char :: "nat \<Rightarrow> char" where
  "digit_char d = ''0123456789'' ! d"

fun str_of_nat :: "nat \<Rightarrow> string" where
  "str_of_nat n =
     (if n < 10 then [digit_char n] else str_of_nat (n div 10) @ [digit_char (n mod 10)])"

declare str_of_nat.simps [simp del]

section \<open>Naming: transliteration and collision resolution\<close>

text \<open>
  The three handlers that name a file carry the same lines
  (\<open>confirm_single\<close> 301-311, \<open>confirm_bulk\<close> 345-353, \<open>save_brand_visual\<close> 203-216):
  \<^verbatim>\<open>
  safe_name = "".join(c if c.isalnum() or c in (' ', '-', '_') else '_' for c in text)
  if not safe_name:
      safe_name = 'unnamed'
  final_filename = f"{safe_name}.png"
  base_name = safe_name
  counter = 1
  while <final_filename is taken>:
      final_filename = f"{base_name}_{counter}.png"
      counter += 1
  \<close>
  They differ only in the test of the loop: \<open>os.path.exists\<close> on the path in the upload
  folder, or membership in the archive's name list. The test is the parameter
  \<open>taken\<close>. The loop has no bound of its own, so it is a partial function: \<open>None\<close>
  is the loop that never ends.
\<close>

definition safe_char :: "char \<Rightarrow> char" where
  "safe_char c =
     (if isalnum c \<or> c \<in> {CHR '' '', CHR ''-'', CHR ''_''} then c else CHR ''_'')"

definition safe_name :: "string \<Rightarrow> string" where
  "safe_name text = (let s = map safe_char text in if s = [] then ''unnamed'' else s)"

definition numbered :: "string \<Rightarrow> nat \<Rightarrow> string" where
  "numbered base_name counter = base_name @ ''_'' @ str_of_nat counter @ ''.png''"

partial_function (option) first_free ::
  "(string \<Rightarrow> bool) \<Rightarrow> string \<Rightarrow> string \<Rightarrow> nat \<Rightarrow> string option" where
  "first_free taken base_name final_filename counter =
     (if taken final_filename
      then first_free taken base_name (numbered base_name counter) (counter + 1)
      else Some final_filename)"

definition resolve_name :: "(string \<Rightarrow> bool) \<Rightarrow> string \<Rightarrow> string option" where
  "resolve_name taken text =
     (let safe = safe_name text in first_free taken safe (safe @ ''.png'') 1)"

text \<open>
  The characters a safe name is made of, and the file names built from them: a
  non-empty run of such characters followed by \<open>.png\<close>.
\<close>

definition name_char :: "char \<Rightarrow> bool" where
  "name_char c = (isalnum c \<or> c = CHR '' '' \<or> c = CHR ''-'' \<or> c = CHR ''_'')"

definition valid_png_name :: "string \<Rightarrow> bool" where
  "valid_png_name f =
     (4 < length f \<and> drop (length f - 4) f = ''.png''
      \<and> list_all name_char (take (length f - 4) f))"

text \<open>
  A file name made for a text: the safe name of the stripped text, plain or with a
  counter. And a file name whose stem (the part before \<open>.png\<close>) neither starts nor
  ends with a space.
\<close>

definition named_after :: "string \<Rightarrow> string \<Rightarrow> bool" where
  "named_after text f =
     (f = safe_name (strip text) @ ''.png''
      \<or> (\<exists>k\<ge>1. f = numbered (safe_name (strip text)) k))"

definition no_outer_space :: "string \<Rightarrow> bool" where
  "no_outer_space f =
     (let stem = take (length f - 4) f
      in stem \<noteq> [] \<and> hd stem \<noteq> CHR '' '' \<and> last stem \<noteq> CHR '' '')"

text \<open>The pattern \<open>^[A-Za-z0-9 _-]+\.png$\<close>.\<close>

definition ascii_name_char :: "char \<Rightarrow> bool" where
  "ascii_name_char c =
     (let n = (of_char c :: nat)
      in (48 \<le> n \<and> n \<le> 57) \<or> (65 \<le> n \<and> n \<le> 90) \<or> (97 \<le> n \<and> n \<le> 122)
         \<or> c = CHR '' '' \<or> c = CHR ''_'' \<or> c = CHR ''-'')"

definition matches_png_pattern :: "string \<Rightarrow> bool" where
  "matches_png_pattern f =
     (4 < length f \<and> drop (length f - 4) f = ''.png''
      \<and> list_all ascii_name_char (take (length f - 4) f))"

section \<open>The text extractor\<close>

text \<open>
  Exceptions are values. \<open>OtherError\<close> stands for whatever an external library raises.
\<close>

datatype py_exn =
    IndexError
  | ValueError
  | FileNotFoundError
  | IsADirectoryError
  | JSONDecodeError
  | OtherError string

text \<open>\<open>xs[i]\<close> for a non-negative index; out of range raises.\<close>

definition py_index :: "'a list \<Rightarrow> nat \<Rightarrow> py_exn + 'a" where
  "py_index xs i = (if i < length xs then Inr (xs ! i) else Inl IndexError)"

text \<open>
  One detection of \<open>reader.readtext\<close> is the tuple (box, text, confidence); the box
  is a list of corner points, each a list of coordinates, top-left first and
  bottom-left last. The corner coordinates are exact numbers of any ordered ring
  (pixel positions).
\<close>

record 'a detection =
  det_box :: "'a list list"
  det_text :: string
  det_confidence :: 'a

text \<open>The key of line 48: \<open>abs(x[0][0][1] - x[0][3][1])\<close>.\<close>

definition vertical_span :: "('a::linordered_idom) detection \<Rightarrow> py_exn + 'a" where
  "vertical_span x =
     (case py_index (det_box x) 0 of
        Inl e \<Rightarrow> Inl e
      | Inr top_left \<Rightarrow>
          (case py_index top_left 1 of
             Inl e \<Rightarrow> Inl e
           | Inr y0 \<Rightarrow>
               (case py_index (det_box x) 3 of
                  Inl e \<Rightarrow> Inl e
                | Inr bottom_left \<Rightarrow>
                    (case py_index bottom_left 1 of
                       Inl e \<Rightarrow> Inl e
                     | Inr y3 \<Rightarrow> Inr \<bar>y0 - y3\<bar>))))"

text \<open>
  \<open>max(iterable, key=f)\<close>: the running best is replaced only by a strictly greater
  key, so the first of several maximal items wins; an exception in the key function
  leaves \<open>max\<close>; an empty iterable raises ValueError.
\<close>

fun py_max_from :: "('a \<Rightarrow> py_exn + 'k::linorder) \<Rightarrow> 'a \<Rightarrow> 'k \<Rightarrow> 'a list \<Rightarrow> py_exn + 'a" where
  "py_max_from key best best_key [] = Inr best"
| "py_max_from key best best_key (x # xs) =
     (case key x of
        Inl e \<Rightarrow> Inl e
      | Inr k \<Rightarrow> if best_key < k then py_max_from key x k xs
                 else py_max_from key best best_key xs)"

definition py_max :: "('a \<Rightarrow> py_exn + 'k::linorder) \<Rightarrow> 'a list \<Rightarrow> py_exn + 'a" where
  "py_max key xs =
     (case xs of
        [] \<Rightarrow> Inl ValueError
      | x # rest \<Rightarrow> (case key x of Inl e \<Rightarrow> Inl e | Inr k \<Rightarrow> py_max_from key x k rest))"

text \<open>
  \<open>extract_main_text\<close> (lines 41-53). Its argument here is what
  \<open>reader.readtext(image_path)\<close> did: raised (\<open>Inl\<close>) or returned a list.
  The \<open>except Exception\<close> covers the whole body.
\<close>

definition extract_main_text :: "py_exn + ('a::linordered_idom) detection list \<Rightarrow> string" where
  "extract_main_text readtext_result =
     (case readtext_result of
        Inl e \<Rightarrow> ''OCR failed''
      | Inr results \<Rightarrow>
          if results = [] then ''No text detected''
          else (case py_max vertical_span results of
                  Inl e \<Rightarrow> ''OCR failed''
                | Inr largest \<Rightarrow> strip (det_text largest)))"

text \<open>
  A box as the engine gives it has four corners of two coordinates each; for such a
  box the key of line 48 is its height.
\<close>

definition well_formed_box :: "'a list list \<Rightarrow> bool" where
  "well_formed_box b = (3 < length b \<and> 1 < length (b ! 0) \<and> 1 < length (b ! 3))"

definition box_height :: "('a::linordered_idom) list list \<Rightarrow> 'a" where
  "box_height b = \<bar>b ! 0 ! 1 - b ! 3 ! 1\<bar>"

section \<open>Files\<close>

text \<open>
  The handlers reach every store through path strings: the staging directory, the
  upload folder and the catalog file live in one file system. A file system maps the
  location of a file to what is there. \<open>realpath\<close> is the operating system's resolution
  of a path string to a location (\<open>None\<close> when a directory on the way is missing);
  the handlers create and remove regular files only, so it does not change while they
  run. Images stand for their own lossless encoding, in a file and in an archive.
  \<open>imwrite_ok\<close> and \<open>imencode_ok\<close> say whether the codec's write and encode succeed.
\<close>

type_synonym image = "nat list"

record confirmed_image =
  img_filename :: string
  img_ocr_text :: string
  img_path :: string
  img_order :: nat

record catalog_entry =
  entry_id :: string
  entry_brand_name :: string
  entry_sequence :: int
  entry_images :: "confirmed_image list"
  entry_created_at :: string

datatype content = ImageData image | CatalogData "catalog_entry list" | OtherData

datatype fnode = Directory | File content

type_synonym filesystem = "string \<rightharpoonup> fnode"

record env =
  realpath :: "string \<Rightarrow> string option"
  imwrite_ok :: "string \<Rightarrow> image \<Rightarrow> bool"
  imencode_ok :: "image \<Rightarrow> bool"
  uuid4 :: string
  now_isoformat :: string

definition upload_folder :: string where "upload_folder = ''static/uploads''"
definition temp_dir :: string where "temp_dir = ''static/temp''"
definition db_file :: string where "db_file = ''brand_visual_db.json''"

text \<open>\<open>os.path.join\<close> of two parts, POSIX.\<close>

definition os_path_join :: "string \<Rightarrow> string \<Rightarrow> string" where
  "os_path_join a b =
     (if b \<noteq> [] \<and> hd b = CHR ''/'' then b
      else if a = [] \<or> last a = CHR ''/'' then a @ b
      else a @ ''/'' @ b)"

definition os_path_exists :: "env \<Rightarrow> filesystem \<Rightarrow> string \<Rightarrow> bool" where
  "os_path_exists env fs p =
     (case realpath env p of None \<Rightarrow> False | Some l \<Rightarrow> fs l \<noteq> None)"

text \<open>\<open>os.remove\<close>: raises on a missing file and on a directory.\<close>

definition os_remove :: "env \<Rightarrow> filesystem \<Rightarrow> string \<Rightarrow> py_exn + filesystem" where
  "os_remove env fs p =
     (case realpath env p of
        None \<Rightarrow> Inl FileNotFoundError
      | Some l \<Rightarrow>
          (case fs l of
             None \<Rightarrow> Inl FileNotFoundError
           | Some Directory \<Rightarrow> Inl IsADirectoryError
           | Some (File c) \<Rightarrow> Inr (fs(l := None))))"

text \<open>\<open>cv2.imread\<close>: \<open>None\<close> for anything that is not a readable image.\<close>

definition cv2_imread :: "env \<Rightarrow> filesystem \<Rightarrow> string \<Rightarrow> image option" where
  "cv2_imread env fs p =
     (case realpath env p of
        None \<Rightarrow> None
      | Some l \<Rightarrow> (case fs l of Some (File (ImageData img)) \<Rightarrow> Some img | _ \<Rightarrow> None))"

text \<open>\<open>cv2.imwrite\<close>: the success flag and the file system afterwards.\<close>

definition cv2_imwrite :: "env \<Rightarrow> filesystem \<Rightarrow> string \<Rightarrow> image \<Rightarrow> bool \<times> filesystem" where
  "cv2_imwrite env fs p img =
     (case realpath env p of
        None \<Rightarrow> (False, fs)
      | Some l \<Rightarrow>
          if fs l \<noteq> Some Directory \<and> imwrite_ok env p img
          then (True, fs(l \<mapsto> File (ImageData img)))
          else (False, fs))"

text \<open>\<open>load_db\<close> (lines 27-32) and \<open>save_db\<close> (lines 35-38).\<close>

definition load_db :: "env \<Rightarrow> filesystem \<Rightarrow> py_exn + catalog_entry list" where
  "load_db env fs =
     (if os_path_exists env fs db_file
      then (case realpath env db_file of
              None \<Rightarrow> Inl FileNotFoundError
            | Some l \<Rightarrow>
                (case fs l of
                   Some (File (CatalogData entries)) \<Rightarrow> Inr entries
                 | Some Directory \<Rightarrow> Inl IsADirectoryError
                 | Some (File _) \<Rightarrow> Inl JSONDecodeError
                 | None \<Rightarrow> Inl FileNotFoundError))
      else Inr [])"

definition save_db :: "env \<Rightarrow> filesystem \<Rightarrow> catalog_entry list \<Rightarrow> py_exn + filesystem" where
  "save_db env fs data =
     (case realpath env db_file of
        None \<Rightarrow> Inl FileNotFoundError
      | Some l \<Rightarrow>
          if fs l = Some Directory then Inl IsADirectoryError
          else Inr (fs(l \<mapsto> File (CatalogData data))))"

section \<open>The handlers\<close>

text \<open>
  A request body is taken as parsed and well-typed: an item has the three string
  fields \<open>id\<close>, \<open>text\<close>, \<open>ext\<close>. A response is what the handler returns; the archive of
  a \<open>send_file\<close> is its list of entries in the order written.
\<close>

record confirm_item =
  item_id :: string
  item_text :: string
  item_ext :: string

record save_request =
  req_brandName :: string
  req_slides :: "confirm_item list"
  req_sequence :: int

type_synonym zip = "(string \<times> image) list"

datatype response =
    JsonError nat string
  | InternalServerError py_exn
  | ExceptionText py_exn
  | DownloadLink string
  | ZipAttachment string zip
  | CatalogJson "catalog_entry list"

text \<open>
  \<open>JsonError status msg\<close> is \<open>jsonify({'error': msg}), status\<close>;
  \<open>InternalServerError e\<close> is the 500 of the outer \<open>except\<close> with the message
  \<open>Internal Server Error: {str(e)}\<close>; \<open>ExceptionText e\<close> is the 500 of
  \<open>get_brand_visuals\<close> with the message \<open>str(e)\<close>; the others are sent with 200.
\<close>

fun status :: "response \<Rightarrow> nat" where
  "status (JsonError code msg) = code"
| "status (InternalServerError e) = 500"
| "status (ExceptionText e) = 500"
| "status (DownloadLink l) = 200"
| "status (ZipAttachment n z) = 200"
| "status (CatalogJson db) = 200"

definition namelist :: "zip \<Rightarrow> string list" where
  "namelist z = map fst z"

definition archive_taken :: "zip \<Rightarrow> string \<Rightarrow> bool" where
  "archive_taken zip_file zip_filename = (zip_filename \<in> set (namelist zip_file))"

definition temp_path_of :: "confirm_item \<Rightarrow> string" where
  "temp_path_of it = os_path_join temp_dir (item_id it @ item_ext it)"

definition upload_taken :: "env \<Rightarrow> filesystem \<Rightarrow> string \<Rightarrow> bool" where
  "upload_taken env fs final_filename =
     os_path_exists env fs (os_path_join upload_folder final_filename)"

text \<open>\<open>confirm_single\<close> (lines 287-321).\<close>

definition confirm_single :: "env \<Rightarrow> confirm_item \<Rightarrow> filesystem \<Rightarrow> (response \<times> filesystem) option" where
  "confirm_single env data fs =
     (let text = strip (item_text data);
          temp_path = temp_path_of data
      in if \<not> os_path_exists env fs temp_path
         then Some (JsonError 404 ''Temp file not found'', fs)
         else (case cv2_imread env fs temp_path of
                 None \<Rightarrow>
                   (case os_remove env fs temp_path of
                      Inl e \<Rightarrow> Some (InternalServerError e, fs)
                    | Inr fs1 \<Rightarrow> Some (JsonError 500 ''Failed to process image'', fs1))
               | Some img \<Rightarrow>
                   (case resolve_name (upload_taken env fs) text of
                      None \<Rightarrow> None
                    | Some final_filename \<Rightarrow>
                        (case cv2_imwrite env fs (os_path_join upload_folder final_filename) img of
                           (success, fs1) \<Rightarrow>
                             if \<not> success
                             then (case os_remove env fs1 temp_path of
                                     Inl e \<Rightarrow> Some (InternalServerError e, fs1)
                                   | Inr fs2 \<Rightarrow>
                                       Some (JsonError 500 ''Failed to save image'', fs2))
                             else (case os_remove env fs1 temp_path of
                                     Inl e \<Rightarrow> Some (InternalServerError e, fs1)
                                   | Inr fs2 \<Rightarrow>
                                       Some (DownloadLink (''/download/'' @ final_filename),
                                             fs2))))))"

text \<open>
  \<open>confirm_bulk\<close> (lines 324-366): the loop over the items, carrying the archive and
  the file system; an exception ends the loop with the file system as it is then.
\<close>

fun confirm_bulk_items ::
  "env \<Rightarrow> confirm_item list \<Rightarrow> zip \<Rightarrow> filesystem \<Rightarrow> ((py_exn + zip) \<times> filesystem) option" where
  "confirm_bulk_items env [] zip_file fs = Some (Inr zip_file, fs)"
| "confirm_bulk_items env (it # rest) zip_file fs =
     (if \<not> os_path_exists env fs (temp_path_of it)
      then confirm_bulk_items env rest zip_file fs
      else (case cv2_imread env fs (temp_path_of it) of
              None \<Rightarrow>
                (case os_remove env fs (temp_path_of it) of
                   Inl e \<Rightarrow> Some (Inl e, fs)
                 | Inr fs1 \<Rightarrow> confirm_bulk_items env rest zip_file fs1)
            | Some img \<Rightarrow>
                if \<not> imencode_ok env img
                then (case os_remove env fs (temp_path_of it) of
                        Inl e \<Rightarrow> Some (Inl e, fs)
                      | Inr fs1 \<Rightarrow> confirm_bulk_items env rest zip_file fs1)
                else (case resolve_name (archive_taken zip_file) (strip (item_text it)) of
                        None \<Rightarrow> None
                      | Some zip_filename \<Rightarrow>
                          (case os_remove env fs (temp_path_of it) of
                             Inl e \<Rightarrow> Some (Inl e, fs)
                           | Inr fs1 \<Rightarrow>
                               confirm_bulk_items env rest (zip_file @ [(zip_filename, img)]) fs1))))"

definition confirm_bulk :: "env \<Rightarrow> confirm_item list \<Rightarrow> filesystem \<Rightarrow> (response \<times> filesystem) option" where
  "confirm_bulk env data fs =
     (case confirm_bulk_items env data [] fs of
        None \<Rightarrow> None
      | Some (Inl e, fs1) \<Rightarrow> Some (InternalServerError e, fs1)
      | Some (Inr zip_file, fs1) \<Rightarrow> Some (ZipAttachment ''extracted_images.zip'' zip_file, fs1))"

text \<open>
  \<open>save_brand_visual\<close> (lines 156-274): the loop over \<open>enumerate(slides)\<close>, carrying
  \<open>saved_images\<close>, the archive and the file system.
\<close>

fun save_slides ::
  "env \<Rightarrow> (nat \<times> confirm_item) list \<Rightarrow> confirmed_image list \<Rightarrow> zip \<Rightarrow> filesystem
     \<Rightarrow> ((py_exn + confirmed_image list \<times> zip) \<times> filesystem) option" where
  "save_slides env [] saved_images zip_file fs = Some (Inr (saved_images, zip_file), fs)"
| "save_slides env ((idx, slide) # rest) saved_images zip_file fs =
     (if \<not> os_path_exists env fs (temp_path_of slide)
      then save_slides env rest saved_images zip_file fs
      else (case cv2_imread env fs (temp_path_of slide) of
              None \<Rightarrow>
                (case os_remove env fs (temp_path_of slide) of
                   Inl e \<Rightarrow> Some (Inl e, fs)
                 | Inr fs1 \<Rightarrow> save_slides env rest saved_images zip_file fs1)
            | Some img \<Rightarrow>
                (case resolve_name (upload_taken env fs) (strip (item_text slide)) of
                   None \<Rightarrow> None
                 | Some final_filename \<Rightarrow>
                     (case cv2_imwrite env fs (os_path_join upload_folder final_filename) img of
                        (success, fs1) \<Rightarrow>
                          (case os_remove env fs1 (temp_path_of slide) of
                             Inl e \<Rightarrow> Some (Inl e, fs1)
                           | Inr fs2 \<Rightarrow>
                               save_slides env rest
                                 (if success
                                  then saved_images @
                                    [\<lparr>img_filename = final_filename,
                                      img_ocr_text = strip (item_text slide),
                                      img_path = os_path_join upload_folder final_filename,
                                      img_order = idx + 1\<rparr>]
                                  else saved_images)
                                 (if success \<and> imencode_ok env img
                                  then zip_file @ [(final_filename, img)]
                                  else zip_file)
                                 fs2)))))"

definition save_brand_visual ::
  "env \<Rightarrow> save_request \<Rightarrow> filesystem \<Rightarrow> (response \<times> filesystem) option" where
  "save_brand_visual env data fs =
     (let brand_name = strip (req_brandName data);
          slides = req_slides data;
          sequence = req_sequence data
      in if brand_name = [] \<or> slides = []
         then Some (JsonError 400 ''Brand name and slides are required'', fs)
         else (case load_db env fs of
                 Inl e \<Rightarrow> Some (InternalServerError e, fs)
               | Inr db \<Rightarrow>
                   (case save_slides env (enumerate 0 slides) [] [] fs of
                      None \<Rightarrow> None
                    | Some (Inl e, fs1) \<Rightarrow> Some (InternalServerError e, fs1)
                    | Some (Inr (saved_images, zip_file), fs1) \<Rightarrow>
                        (case save_db env fs1
                                (db @ [\<lparr>entry_id = uuid4 env,
                                        entry_brand_name = brand_name,
                                        entry_sequence = sequence,
                                        entry_images = saved_images,
                                        entry_created_at = now_isoformat env\<rparr>]) of
                           Inl e \<Rightarrow> Some (InternalServerError e, fs1)
                         | Inr fs2 \<Rightarrow>
                             Some (ZipAttachment ''brand_visual_slides.zip'' zip_file, fs2)))))"

text \<open>\<open>get_brand_visuals\<close> (lines 277-284).\<close>

definition get_brand_visuals :: "env \<Rightarrow> filesystem \<Rightarrow> response \<times> filesystem" where
  "get_brand_visuals env fs =
     (case load_db env fs of
        Inl e \<Rightarrow> (ExceptionText e, fs)
      | Inr db \<Rightarrow> (CatalogJson db, fs))"

section \<open>A concrete resolver\<close>

text \<open>
  The path resolution of a file system in which every directory named on the way
  exists and nothing is a symbolic link: the lexical rules of \<open>posixpath.normpath\<close>.
  The program creates \<open>static/uploads\<close> and \<open>static/temp\<close> when it starts
  (lines 18-20), so \<open>static/temp/..\<close> is \<open>static\<close>. It is used where a statement is
  evaluated at a concrete request.
\<close>

fun split_on :: "char \<Rightarrow> string \<Rightarrow> string list" where
  "split_on sep [] = [[]]"
| "split_on sep (c # cs) =
     (if c = sep then [] # split_on sep cs
      else (case split_on sep cs of [] \<Rightarrow> [[c]] | p # ps \<Rightarrow> (c # p) # ps))"

fun collapse :: "bool \<Rightarrow> string list \<Rightarrow> string list \<Rightarrow> string list" where
  "collapse initial_slash [] new_parts = new_parts"
| "collapse initial_slash (part # parts) new_parts =
     (if part = [] \<or> part = ''.'' then collapse initial_slash parts new_parts
      else if part \<noteq> ''..'' \<or> (\<not> initial_slash \<and> new_parts = [])
              \<or> (new_parts \<noteq> [] \<and> last new_parts = ''..'')
      then collapse initial_slash parts (new_parts @ [part])
      else collapse initial_slash parts (butlast new_parts))"

fun join_with :: "string \<Rightarrow> string list \<Rightarrow> string" where
  "join_with sep [] = []"
| "join_with sep [x] = x"
| "join_with sep (x # y # ys) = x @ sep @ join_with sep (y # ys)"

definition normpath :: "string \<Rightarrow> string" where
  "normpath p =
     (let initial_slash = (p \<noteq> [] \<and> hd p = CHR ''/'');
          joined = join_with ''/'' (collapse initial_slash (split_on CHR ''/'' p) [])
      in if initial_slash then ''/'' @ joined else if joined = [] then ''.'' else joined)"

section \<open>Concrete requests\<close>

text \<open>
  Environments in which the codec always succeeds: \<open>plain_env\<close> resolves every path
  string to itself, \<open>lexical_env\<close> resolves with \<open>normpath\<close>.
\<close>

definition plain_env :: env where
  "plain_env =
     \<lparr>realpath = Some, imwrite_ok = (\<lambda>p img. True), imencode_ok = (\<lambda>img. True),
      uuid4 = ''8c5f0d4e-1f0a-4b7e-9a53-0d6c2f1b7a10'',
      now_isoformat = ''2024-05-01T10:00:00''\<rparr>"

definition lexical_env :: env where
  "lexical_env =
     \<lparr>realpath = (\<lambda>p. Some (normpath p)), imwrite_ok = (\<lambda>p img. True),
      imencode_ok = (\<lambda>img. True),
      uuid4 = ''8c5f0d4e-1f0a-4b7e-9a53-0d6c2f1b7a10'',
      now_isoformat = ''2024-05-01T10:00:00''\<rparr>"

definition two_detections :: "int detection list" where
  "two_detections =
     [\<lparr>det_box = [[10, 10], [90, 10], [90, 30], [10, 30]],
       det_text = ''fine print'', det_confidence = 1\<rparr>,
      \<lparr>det_box = [[10, 40], [200, 40], [200, 120], [10, 120]],
       det_text = '' SALE '', det_confidence = 1\<rparr>]"


definition staged_s1 :: confirm_item where
  "staged_s1 = \<lparr>item_id = ''s1'', item_text = '' A '', item_ext = ''.png''\<rparr>"

definition staged_s2 :: confirm_item where
  "staged_s2 = \<lparr>item_id = ''s2'', item_text = ''A'', item_ext = ''.png''\<rparr>"

definition slide_b :: confirm_item where
  "slide_b = \<lparr>item_id = ''s1'', item_text = ''B'', item_ext = ''.png''\<rparr>"

definition slide_a :: confirm_item where
  "slide_a = \<lparr>item_id = ''s2'', item_text = ''A'', item_ext = ''.png''\<rparr>"

definition acme_request :: save_request where
  "acme_request =
     \<lparr>req_brandName = ''Acme'', req_slides = [slide_b, slide_a], req_sequence = 1\<rparr>"

definition padded_request :: save_request where
  "padded_request =
     \<lparr>req_brandName = ''Acme'', req_slides = [staged_s1, staged_s2], req_sequence = 1\<rparr>"

definition two_staged_images :: filesystem where
  "two_staged_images =
     [''static/temp/s1.png'' \<mapsto> File (ImageData [1, 2, 3]),
      ''static/temp/s2.png'' \<mapsto> File (ImageData [4, 5, 6])]"

definition no_files :: filesystem where
  "no_files = Map.empty"

definition acme_entry :: catalog_entry where
  "acme_entry =
     \<lparr>entry_id = ''1d9f3c52-7a44-4e0b-b5a1-6f2e9c8d0a37'', entry_brand_name = ''Acme'',
      entry_sequence = 1,
      entry_images =
        [\<lparr>img_filename = ''Acme.png'', img_ocr_text = ''Acme'',
          img_path = ''static/uploads/Acme.png'', img_order = 1\<rparr>],
      entry_created_at = ''2024-04-30T09:00:00''\<rparr>"

text \<open>
  A file system holding the catalog file only, one holding a confirmed image only, and
  two requests whose \<open>id\<close> climbs out of the staging directory.
\<close>

definition catalog_only :: filesystem where
  "catalog_only = [''brand_visual_db.json'' \<mapsto> File (CatalogData [acme_entry])]"

definition upload_only :: filesystem where
  "upload_only = [''static/uploads/Acme.png'' \<mapsto> File (ImageData [7, 7, 7])]"

definition catalog_item :: confirm_item where
  "catalog_item =
     \<lparr>item_id = ''../../brand_visual_db'', item_text = ''x'', item_ext = ''.json''\<rparr>"

definition upload_item :: confirm_item where
  "upload_item = \<lparr>item_id = ''../uploads/Acme'', item_text = ''x'', item_ext = ''.png''\<rparr>"

definition one_staged_image :: filesystem where
  "one_staged_image = [''static/temp/s1.png'' \<mapsto> File (ImageData [1, 2, 3])]"

section \<open>Decimal numerals are injective\<close>

lemma digit_char_inj:
  assumes "a < 10" and "b < 10" and "digit_char a = digit_char b"
  shows "a = b"
proof -
  have d: "distinct ''0123456789''" by simp
  have l: "length ''0123456789'' = 10" by simp
  from assms(3) have "''0123456789'' ! a = ''0123456789'' ! b" by (simp only: digit_char_def)
  with d assms(1,2) l show "a = b" by (metis nth_eq_iff_index_eq)
qed

lemma str_of_nat_nonempty: "str_of_nat n \<noteq> []"
  by (subst str_of_nat.simps) simp

lemma str_of_nat_small: "n < 10 \<Longrightarrow> str_of_nat n = [digit_char n]"
  by (subst str_of_nat.simps) simp

lemma str_of_nat_large:
  "\<not> n < 10 \<Longrightarrow> str_of_nat n = str_of_nat (n div 10) @ [digit_char (n mod 10)]"
  by (subst str_of_nat.simps) simp

lemma str_of_nat_inj: "str_of_nat a = str_of_nat b \<Longrightarrow> a = b"
proof (induction a arbitrary: b rule: str_of_nat.induct)
  case (1 n)
  show ?case
  proof (cases "n < 10")
    case True
    note sn = str_of_nat_small [OF True]
    show ?thesis
    proof (cases "b < 10")
      case bl: True
      from sn "1.prems" str_of_nat_small [OF bl] have "digit_char n = digit_char b" by simp
      with True bl show ?thesis by (rule digit_char_inj)
    next
      case False
      from sn "1.prems" str_of_nat_large [OF False] have "str_of_nat (b div 10) = []" by simp
      then show ?thesis by (simp add: str_of_nat_nonempty)
    qed
  next
    case False
    note sn = str_of_nat_large [OF False]
    show ?thesis
    proof (cases "b < 10")
      case True
      from sn "1.prems" str_of_nat_small [OF True] have "str_of_nat (n div 10) = []" by simp
      then show ?thesis by (simp add: str_of_nat_nonempty)
    next
      case bf: False
      from sn "1.prems" str_of_nat_large [OF bf]
      have e1: "str_of_nat (n div 10) = str_of_nat (b div 10)"
        and e2: "digit_char (n mod 10) = digit_char (b mod 10)" by simp_all
      from "1.IH" [OF False e1] have q: "n div 10 = b div 10" .
      have "n mod 10 = b mod 10" by (rule digit_char_inj [OF _ _ e2]) simp_all
      with q show ?thesis by (metis div_mult_mod_eq)
    qed
  qed
qed

lemma numbered_inj: "numbered b j = numbered b k \<Longrightarrow> j = k"
  by (simp add: numbered_def str_of_nat_inj)

section \<open>Safe names\<close>

lemma digit_char_alnum: "d < 10 \<Longrightarrow> isalnum (digit_char d)"
proof -
  assume "d < 10"
  then have "d \<in> {0, 1, 2, 3, 4, 5, 6, 7, 8, 9}" by auto
  then show ?thesis by (auto simp: digit_char_def isalnum_def)
qed

lemma str_of_nat_name_chars: "list_all name_char (str_of_nat n)"
proof (induction n rule: str_of_nat.induct)
  case (1 n)
  show ?case
  proof (cases "n < 10")
    case True
    then show ?thesis by (simp add: str_of_nat_small name_char_def digit_char_alnum)
  next
    case False
    have d: "name_char (digit_char (n mod 10))" by (simp add: name_char_def digit_char_alnum)
    from False "1.IH" d show ?thesis by (simp add: str_of_nat_large)
  qed
qed

lemma name_char_safe_char: "name_char (safe_char c)"
  by (simp add: safe_char_def name_char_def)

lemma safe_char_eq: "safe_char c = (if name_char c then c else CHR ''_'')"
  by (simp add: safe_char_def name_char_def)

lemma safe_name_chars: "list_all name_char (safe_name t)"
  by (simp add: safe_name_def Let_def list_all_iff name_char_safe_char)
     (simp add: name_char_def isalnum_def)

lemma safe_name_nonempty: "safe_name t \<noteq> []"
  by (simp add: safe_name_def Let_def)

lemma valid_plain: "valid_png_name (safe_name t @ ''.png'')"
  using safe_name_nonempty [of t] by (simp add: valid_png_name_def safe_name_chars)

lemma valid_numbered: "valid_png_name (numbered (safe_name t) k)"
  using safe_name_nonempty [of t]
  by (simp add: valid_png_name_def numbered_def safe_name_chars str_of_nat_name_chars
        name_char_def)

section \<open>The collision loop ends\<close>

lemma first_free_stop: "\<not> taken f \<Longrightarrow> first_free taken b f c = Some f"
  by (subst first_free.simps) simp

lemma first_free_step:
  "taken f \<Longrightarrow> first_free taken b f c = first_free taken b (numbered b c) (c + 1)"
  by (subst first_free.simps) simp

lemma first_free_loop:
  assumes "\<forall>k\<ge>m. \<not> taken (numbered b k)"
  shows "\<exists>k\<ge>c. first_free taken b (numbered b c) (Suc c) = Some (numbered b k)
            \<and> \<not> taken (numbered b k) \<and> (\<forall>j. c \<le> j \<and> j < k \<longrightarrow> taken (numbered b j))"
proof (induction "m - c" arbitrary: c)
  case 0
  then have free: "\<not> taken (numbered b c)" using assms by simp
  from first_free_stop [of taken "numbered b c" b "Suc c", OF free] free show ?case by (intro exI [of _ c]) auto
next
  case (Suc d)
  show ?case
  proof (cases "taken (numbered b c)")
    case False
    from first_free_stop [of taken "numbered b c" b "Suc c", OF False] False show ?thesis by (intro exI [of _ c]) auto
  next
    case True
    from Suc.hyps(2) have "d = m - Suc c" by simp
    from Suc.hyps(1) [OF this] obtain k where k: "Suc c \<le> k"
      "first_free taken b (numbered b (Suc c)) (Suc (Suc c)) = Some (numbered b k)"
      "\<not> taken (numbered b k)" "\<forall>j. Suc c \<le> j \<and> j < k \<longrightarrow> taken (numbered b j)"
      by blast
    have "first_free taken b (numbered b c) (Suc c) = Some (numbered b k)"
      using first_free_step [of taken "numbered b c" b "Suc c", OF True] k(2) by simp
    moreover have "\<forall>j. c \<le> j \<and> j < k \<longrightarrow> taken (numbered b j)"
      using True k(4) by (metis Suc_leI le_neq_implies_less)
    ultimately show ?thesis using k(1,3) by (intro exI [of _ k]) auto
  qed
qed

lemma finite_taken_bound:
  assumes "finite {f. valid_png_name f \<and> taken f}"
  shows "\<exists>m. \<forall>k\<ge>m. \<not> taken (numbered (safe_name t) k)"
proof -
  have "inj (numbered (safe_name t))" by (rule injI) (rule numbered_inj)
  then have "finite (numbered (safe_name t) -` {f. valid_png_name f \<and> taken f})"
    using assms by (rule finite_vimageI [rotated])
  then have "finite {k. taken (numbered (safe_name t) k)}"
    by (simp add: vimage_def valid_numbered)
  then obtain m where "\<forall>k\<in>{k. taken (numbered (safe_name t) k)}. k < m"
    using finite_nat_set_iff_bounded by blast
  then have "\<forall>k\<ge>m. \<not> taken (numbered (safe_name t) k)" by (metis mem_Collect_eq not_le)
  then show ?thesis ..
qed

lemma resolve_name_total:
  assumes "finite {f. valid_png_name f \<and> taken f}"
  shows "\<exists>f. resolve_name taken t = Some f \<and> \<not> taken f
           \<and> (f = safe_name t @ ''.png'' \<or>
               (\<exists>k\<ge>1. f = numbered (safe_name t) k \<and> taken (safe_name t @ ''.png'')
                  \<and> (\<forall>j. 1 \<le> j \<and> j < k \<longrightarrow> taken (numbered (safe_name t) j))))"
proof (cases "taken (safe_name t @ ''.png'')")
  case False
  from first_free_stop [of taken "safe_name t @ ''.png''" "safe_name t" 1, OF False] False show ?thesis by (simp add: resolve_name_def)
next
  case True
  from finite_taken_bound [OF assms] obtain m
    where "\<forall>k\<ge>m. \<not> taken (numbered (safe_name t) k)" by blast
  from first_free_loop [OF this, of 1] obtain k where k: "1 \<le> k"
    "first_free taken (safe_name t) (numbered (safe_name t) 1) (Suc 1)
       = Some (numbered (safe_name t) k)"
    "\<not> taken (numbered (safe_name t) k)"
    "\<forall>j. 1 \<le> j \<and> j < k \<longrightarrow> taken (numbered (safe_name t) j)" by blast
  have "resolve_name taken t = Some (numbered (safe_name t) k)"
    using first_free_step [of taken "safe_name t @ ''.png''" "safe_name t" 1, OF True] k(2) by (simp add: resolve_name_def)
  with True k show ?thesis by blast
qed

text \<open>Whatever the loop returns is one of its candidates and is free.\<close>

lemma first_free_result:
  assumes "first_free taken b f c = Some r"
  shows "\<not> taken r \<and> (r = f \<or> (\<exists>k\<ge>c. r = numbered b k))"
proof (rule first_free.raw_induct
    [where P = "\<lambda>tk bb ff cc rr. \<not> tk rr \<and> (rr = ff \<or> (\<exists>k\<ge>cc. rr = numbered bb k))",
     OF _ assms])
  fix g tk bb ff cc rr
  assume IH: "\<And>t n x i y. g t n x i = Some y
                \<Longrightarrow> \<not> t y \<and> (y = x \<or> (\<exists>k\<ge>i. y = numbered n k))"
    and eq: "(if tk ff then g tk bb (numbered bb cc) (cc + 1) else Some ff) = Some rr"
  show "\<not> tk rr \<and> (rr = ff \<or> (\<exists>k\<ge>cc. rr = numbered bb k))"
  proof (cases "tk ff")
    case True
    with eq have "g tk bb (numbered bb cc) (cc + 1) = Some rr" by simp
    from IH [OF this] have "\<not> tk rr"
      and "rr = numbered bb cc \<or> (\<exists>k\<ge>cc + 1. rr = numbered bb k)" by simp_all
    then show ?thesis by (metis Suc_eq_plus1 Suc_leD order_refl)
  next
    case False
    with eq show ?thesis by simp
  qed
qed

section \<open>The naming policy\<close>

text \<open>
  C2 (as amended). For every text and every namespace in which finitely many file names
  are taken, the naming policy returns a name. The safe name keeps each character that
  is alphanumeric or a space, a hyphen or an underscore and has an underscore in place
  of every other one, and is \<open>unnamed\<close> for the empty text. The result is the safe name
  plus \<open>.png\<close> when that is free, and otherwise the safe name plus \<open>_k.png\<close> for the
  least \<open>k \<ge> 1\<close> that is free; it is not taken in the namespace; and it is a non-empty
  run of such characters followed by \<open>.png\<close>, where alphanumeric is Python's
  \<open>str.isalnum\<close> and so includes letters and digits outside ASCII.
\<close>

theorem resolve_name_spec:
  assumes "finite {f. valid_png_name f \<and> taken f}"
  shows "\<exists>f. resolve_name taken text = Some f
           \<and> \<not> taken f
           \<and> valid_png_name f
           \<and> (f = safe_name text @ ''.png'' \<or>
               (\<exists>k\<ge>1. f = numbered (safe_name text) k \<and> taken (safe_name text @ ''.png'')
                  \<and> (\<forall>j. 1 \<le> j \<and> j < k \<longrightarrow> taken (numbered (safe_name text) j))))
           \<and> safe_name text =
               (if text = [] then ''unnamed''
                else map (\<lambda>c. if name_char c then c else CHR ''_'') text)"
proof -
  from resolve_name_total [OF assms, of "text"] obtain f where
    f: "resolve_name taken text = Some f" "\<not> taken f"
       "f = safe_name text @ ''.png'' \<or>
               (\<exists>k\<ge>1. f = numbered (safe_name text) k \<and> taken (safe_name text @ ''.png'')
                  \<and> (\<forall>j. 1 \<le> j \<and> j < k \<longrightarrow> taken (numbered (safe_name text) j)))"
    by blast
  have v: "valid_png_name f" using f(3) valid_plain valid_numbered by blast
  have s: "safe_name text =
               (if text = [] then ''unnamed''
                else map (\<lambda>c. if name_char c then c else CHR ''_'') text)"
    by (simp add: safe_name_def Let_def safe_char_eq)
  from f(1) f(2) v f(3) s show ?thesis by blast
qed

theorem resolve_name_spec_witness:
  "finite {f. valid_png_name f \<and> archive_taken [(''a.png'', [])] f}
   \<and> (\<exists>f. resolve_name (archive_taken [(''a.png'', [])]) ''a'' = Some f
         \<and> \<not> archive_taken [(''a.png'', [])] f \<and> valid_png_name f)"
proof -
  have fin: "finite {f. valid_png_name f \<and> archive_taken [(''a.png'', [])] f}"
    by (simp add: archive_taken_def namelist_def)
  from resolve_name_spec [OF fin, of "''a''"] show ?thesis using fin by blast
qed

text \<open>
  C2 as stated fails: the text made of the one letter U+00E9, which \<open>str.isalnum\<close>
  accepts, is kept, and the file name does not match \<open>^[A-Za-z0-9 _-]+\.png$\<close>.
\<close>

theorem resolve_name_pattern_counterexample:
  "resolve_name (archive_taken []) [CHR 0xE9]
     = Some [CHR 0xE9, CHR ''.'', CHR ''p'', CHR ''n'', CHR ''g'']
   \<and> \<not> matches_png_pattern [CHR 0xE9, CHR ''.'', CHR ''p'', CHR ''n'', CHR ''g'']"
  by (simp add: resolve_name_def first_free.simps safe_name_def safe_char_def isalnum_def
        matches_png_pattern_def ascii_name_char_def archive_taken_def namelist_def)

section \<open>Validation in \<open>save_brand_visual\<close>\<close>



section \<open>The largest detection\<close>

lemma py_max_from_ok:
  assumes "key best = Inr bk" and "\<forall>x\<in>set xs. \<exists>k. key x = Inr k"
  shows "\<exists>r kr. py_max_from key best bk xs = Inr r \<and> r \<in> set (best # xs)
           \<and> key r = Inr kr \<and> bk \<le> kr \<and> (\<forall>y\<in>set xs. \<forall>k. key y = Inr k \<longrightarrow> k \<le> kr)"
  using assms
proof (induction xs arbitrary: best bk)
  case Nil
  then show ?case by simp
next
  case (Cons x xs)
  from Cons.prems(2) obtain k where k: "key x = Inr k" by auto
  from Cons.prems(2) have rest: "\<forall>y\<in>set xs. \<exists>k. key y = Inr k" by simp
  show ?case
  proof (cases "bk < k")
    case True
    from Cons.IH [OF k rest] obtain r kr where r: "py_max_from key x k xs = Inr r"
      "r \<in> set (x # xs)" "key r = Inr kr" "k \<le> kr"
      "\<forall>y\<in>set xs. \<forall>k. key y = Inr k \<longrightarrow> k \<le> kr" by blast
    have "py_max_from key best bk (x # xs) = Inr r" using k True r(1) by simp
    moreover have "bk \<le> kr" using True r(4) by simp
    moreover have "\<forall>y\<in>set (x # xs). \<forall>j. key y = Inr j \<longrightarrow> j \<le> kr"
      using k r(4,5) by auto
    ultimately show ?thesis using r(2,3) by auto
  next
    case False
    from Cons.IH [OF Cons.prems(1) rest] obtain r kr where r: "py_max_from key best bk xs = Inr r"
      "r \<in> set (best # xs)" "key r = Inr kr" "bk \<le> kr"
      "\<forall>y\<in>set xs. \<forall>k. key y = Inr k \<longrightarrow> k \<le> kr" by blast
    have "py_max_from key best bk (x # xs) = Inr r" using k False r(1) by simp
    moreover have "\<forall>y\<in>set (x # xs). \<forall>j. key y = Inr j \<longrightarrow> j \<le> kr"
      using k r(4,5) False by auto
    ultimately show ?thesis using r(2,3,4) by auto
  qed
qed

lemma py_max_ok:
  assumes "xs \<noteq> []" and "\<forall>x\<in>set xs. \<exists>k. key x = Inr k"
  shows "\<exists>r kr. py_max key xs = Inr r \<and> r \<in> set xs
           \<and> key r = Inr kr \<and> (\<forall>y\<in>set xs. \<forall>k. key y = Inr k \<longrightarrow> k \<le> kr)"
proof -
  from assms(1) obtain x rest where xs: "xs = x # rest" by (cases xs) auto
  from assms(2) xs obtain k where k: "key x = Inr k" by auto
  from assms(2) xs have rest: "\<forall>y\<in>set rest. \<exists>k. key y = Inr k" by simp
  from py_max_from_ok [OF k rest] obtain r kr where r: "py_max_from key x k rest = Inr r"
      "r \<in> set (x # rest)" "key r = Inr kr" "k \<le> kr"
      "\<forall>y\<in>set rest. \<forall>k. key y = Inr k \<longrightarrow> k \<le> kr" by blast
  have "py_max key xs = Inr r" using xs k r(1) by (simp add: py_max_def)
  moreover have "\<forall>y\<in>set xs. \<forall>j. key y = Inr j \<longrightarrow> j \<le> kr" using xs k r(4,5) by auto
  ultimately show ?thesis using xs r(2,3) by auto
qed

lemma vertical_span_ok:
  assumes "3 < length (det_box x)" and "1 < length (det_box x ! 0)" and "1 < length (det_box x ! 3)"
  shows "vertical_span x = Inr \<bar>det_box x ! 0 ! 1 - det_box x ! 3 ! 1\<bar>"
  using assms by (auto simp: vertical_span_def py_index_def)

text \<open>
  C1. When the engine raises, \<open>extract_main_text\<close> returns \<open>OCR failed\<close>; for the empty
  list it returns \<open>No text detected\<close>; for a non-empty list of detections (each box with
  its four corners) it returns the trimmed text of a detection of the list whose box is
  at least as high as every other, the height being the absolute difference of the
  second coordinates of the first and the fourth corner. The function is total: no
  exception leaves it.
\<close>

theorem extract_main_text_spec:
  "extract_main_text (Inl e) = ''OCR failed''
   \<and> extract_main_text (Inr []) = ''No text detected''
   \<and> (results \<noteq> [] \<and> (\<forall>x\<in>set results. well_formed_box (det_box x)) \<longrightarrow>
        (\<exists>largest\<in>set results.
           extract_main_text (Inr results) = strip (det_text largest)
           \<and> (\<forall>y\<in>set results. box_height (det_box y) \<le> box_height (det_box largest))))"
proof (intro conjI impI)
  show "extract_main_text (Inl e) = ''OCR failed''" by (simp add: extract_main_text_def)
  show "extract_main_text (Inr []) = ''No text detected''" by (simp add: extract_main_text_def)
next
  assume a: "results \<noteq> [] \<and> (\<forall>x\<in>set results. well_formed_box (det_box x))"
  then have ne: "results \<noteq> []" and wf: "\<forall>x\<in>set results. well_formed_box (det_box x)" by simp_all
  have sp: "\<And>x. x \<in> set results \<Longrightarrow> vertical_span x = Inr (box_height (det_box x))"
    using wf by (simp add: well_formed_box_def box_height_def vertical_span_ok)
  then have "\<forall>x\<in>set results. \<exists>k. vertical_span x = Inr k" by blast
  from py_max_ok [OF ne this] obtain r kr where r: "py_max vertical_span results = Inr r"
    "r \<in> set results" "vertical_span r = Inr kr"
    "\<forall>y\<in>set results. \<forall>k. vertical_span y = Inr k \<longrightarrow> k \<le> kr" by blast
  from sp [OF r(2)] r(3) have kr: "kr = box_height (det_box r)" by simp
  have "extract_main_text (Inr results) = strip (det_text r)"
    using ne r(1) by (simp add: extract_main_text_def)
  moreover have "\<forall>y\<in>set results. box_height (det_box y) \<le> box_height (det_box r)"
    using r(4) sp kr by simp
  ultimately show "\<exists>largest\<in>set results.
           extract_main_text (Inr results) = strip (det_text largest)
           \<and> (\<forall>y\<in>set results. box_height (det_box y) \<le> box_height (det_box largest))"
    using r(2) by blast
qed

theorem extract_main_text_spec_witness:
  "two_detections \<noteq> []
   \<and> well_formed_box (det_box (two_detections ! 0))
   \<and> well_formed_box (det_box (two_detections ! 1))
   \<and> extract_main_text (Inr two_detections) = ''SALE''"
proof -
  have h: "two_detections \<noteq> [] \<and> (\<forall>x\<in>set two_detections. well_formed_box (det_box x))"
    by (simp add: two_detections_def well_formed_box_def)
  from extract_main_text_spec [of "OtherError ''''" two_detections] h
  have "\<exists>largest\<in>set two_detections.
           extract_main_text (Inr two_detections) = strip (det_text largest)
           \<and> (\<forall>y\<in>set two_detections. box_height (det_box y) \<le> box_height (det_box largest))"
    by blast
  then have "extract_main_text (Inr two_detections) = ''SALE''"
    by (auto simp: two_detections_def box_height_def strip_def isspace_def)
  moreover have "well_formed_box (det_box (two_detections ! 0))"
    and "well_formed_box (det_box (two_detections ! 1))"
    by (simp_all add: two_detections_def well_formed_box_def)
  ultimately show ?thesis using h by blast
qed

section \<open>File primitives and \<open>confirm_single\<close>\<close>










section \<open>Stripped texts give names without outer spaces\<close>

lemma str_of_nat_alnum: "list_all isalnum (str_of_nat n)"
proof (induction n rule: str_of_nat.induct)
  case (1 n)
  show ?case
  proof (cases "n < 10")
    case True
    then show ?thesis by (simp add: str_of_nat_small digit_char_alnum)
  next
    case False
    have d: "isalnum (digit_char (n mod 10))" by (simp add: digit_char_alnum)
    from False "1.IH" d show ?thesis by (simp add: str_of_nat_large)
  qed
qed

lemma last_str_of_nat: "last (str_of_nat n) \<noteq> CHR '' ''"
proof -
  have "isalnum (last (str_of_nat n))"
    using str_of_nat_alnum [of n] str_of_nat_nonempty [of n]
    by (simp add: list_all_iff)
  then show ?thesis by (auto simp: isalnum_def)
qed

lemma last_dropWhile: "dropWhile P xs \<noteq> [] \<Longrightarrow> last (dropWhile P xs) = last xs"
  by (induction xs) (auto split: if_splits)

lemma strip_ends:
  assumes "strip t \<noteq> []"
  shows "\<not> isspace (hd (strip t)) \<and> \<not> isspace (last (strip t))"
proof -
  let ?u = "dropWhile isspace t"
  let ?v = "dropWhile isspace (rev ?u)"
  from assms have v: "?v \<noteq> []" by (simp add: strip_def)
  then have u: "?u \<noteq> []" by (metis dropWhile.simps(1) rev.simps(1))
  have "last (strip t) = hd ?v" using v by (simp add: strip_def last_rev)
  moreover have "\<not> isspace (hd ?v)" using v by (rule hd_dropWhile)
  moreover have "hd (strip t) = last ?v" using v by (simp add: strip_def hd_rev)
  moreover have "last ?v = last (rev ?u)" using v by (rule last_dropWhile)
  moreover have "last (rev ?u) = hd ?u" using u by (simp add: last_rev)
  moreover have "\<not> isspace (hd ?u)" using u by (rule hd_dropWhile)
  ultimately show ?thesis by simp
qed

lemma safe_char_space: "safe_char c = CHR '' '' \<Longrightarrow> isspace c"
  by (auto simp: safe_char_def isspace_def split: if_splits)

lemma safe_name_strip_ends:
  "hd (safe_name (strip t)) \<noteq> CHR '' '' \<and> last (safe_name (strip t)) \<noteq> CHR '' ''"
proof (cases "strip t = []")
  case True
  then show ?thesis by (simp add: safe_name_def)
next
  case False
  then have s: "safe_name (strip t) = map safe_char (strip t)" by (simp add: safe_name_def)
  from strip_ends [OF False] have "safe_char (hd (strip t)) \<noteq> CHR '' ''"
    and "safe_char (last (strip t)) \<noteq> CHR '' ''" using safe_char_space by blast+
  with False s show ?thesis by (simp add: hd_map last_map)
qed

lemma named_after_no_outer_space:
  assumes "named_after t f"
  shows "no_outer_space f"
proof -
  let ?b = "safe_name (strip t)"
  note ne = safe_name_nonempty [of "strip t"]
  note ends = safe_name_strip_ends [of t]
  from assms consider "f = ?b @ ''.png''" | k where "f = numbered ?b k"
    by (auto simp: named_after_def)
  then show ?thesis
  proof cases
    case 1
    then show ?thesis using ne ends by (simp add: no_outer_space_def)
  next
    case 2
    then have "take (length f - 4) f = ?b @ ''_'' @ str_of_nat k"
      by (simp add: numbered_def)
    moreover have "last (?b @ ''_'' @ str_of_nat k) \<noteq> CHR '' ''"
      using last_str_of_nat [of k] str_of_nat_nonempty [of k] by simp
    ultimately show ?thesis using ne ends by (simp add: no_outer_space_def)
  qed
qed

lemma resolve_name_named:
  assumes "resolve_name taken (strip t) = Some f"
  shows "named_after t f"
proof -
  from assms have "first_free taken (safe_name (strip t)) (safe_name (strip t) @ ''.png'') 1 = Some f"
    by (simp add: resolve_name_def Let_def)
  from first_free_result [OF this] show ?thesis by (auto simp: named_after_def)
qed

lemma resolve_name_free: "resolve_name taken t = Some f \<Longrightarrow> \<not> taken f"
  using first_free_result [of taken "safe_name t" "safe_name t @ ''.png''" 1 f]
  by (simp add: resolve_name_def Let_def)

section \<open>The two loops\<close>

lemma confirm_bulk_items_Cons:
  assumes "confirm_bulk_items env (it # rest) z fs = Some (Inr z', fs')"
  shows "\<exists>z1 fs1. confirm_bulk_items env rest z1 fs1 = Some (Inr z', fs')
           \<and> (z1 = z \<or> (\<exists>f img. z1 = z @ [(f, img)] \<and> named_after (item_text it) f
                              \<and> \<not> archive_taken z f))"
  using assms
  by (auto split: if_splits option.splits sum.splits dest: resolve_name_named resolve_name_free)

lemma confirm_bulk_items_names:
  assumes "confirm_bulk_items env items z fs = Some (Inr z', fs')"
  shows "\<exists>new. z' = z @ new
           \<and> (\<forall>f\<in>set (namelist new). \<exists>it\<in>set items. named_after (item_text it) f)"
  using assms
proof (induction items arbitrary: z fs)
  case Nil
  then show ?case by (simp add: namelist_def)
next
  case (Cons it rest)
  from confirm_bulk_items_Cons [OF Cons.prems] obtain z1 fs1 where
    run: "confirm_bulk_items env rest z1 fs1 = Some (Inr z', fs')"
    and z1: "z1 = z \<or> (\<exists>f img. z1 = z @ [(f, img)] \<and> named_after (item_text it) f
                              \<and> \<not> archive_taken z f)" by blast
  from Cons.IH [OF run] obtain new where new: "z' = z1 @ new"
    "\<forall>f\<in>set (namelist new). \<exists>it\<in>set rest. named_after (item_text it) f" by blast
  from z1 show ?case
  proof
    assume "z1 = z"
    with new show ?thesis by auto
  next
    assume "\<exists>f img. z1 = z @ [(f, img)] \<and> named_after (item_text it) f \<and> \<not> archive_taken z f"
    then obtain f img where f: "z1 = z @ [(f, img)]" "named_after (item_text it) f" by blast
    have "z' = z @ ((f, img) # new)" using new(1) f(1) by simp
    moreover have "\<forall>g\<in>set (namelist ((f, img) # new)). \<exists>it\<in>set (it # rest). named_after (item_text it) g"
      using new(2) f(2) by (auto simp: namelist_def)
    ultimately show ?thesis by blast
  qed
qed

lemma save_slides_Cons:
  assumes "save_slides env ((idx, slide) # rest) saved z fs = Some (Inr (saved', z'), fs')"
  shows "\<exists>saved1 z1 fs1. save_slides env rest saved1 z1 fs1 = Some (Inr (saved', z'), fs')
     \<and> (saved1 = saved \<and> z1 = z
        \<or> (\<exists>f. named_after (item_text slide) f
               \<and> saved1 = saved @ [\<lparr>img_filename = f, img_ocr_text = strip (item_text slide),
                                     img_path = os_path_join upload_folder f,
                                     img_order = idx + 1\<rparr>]
               \<and> (z1 = z \<or> (\<exists>img. z1 = z @ [(f, img)]))))"
  using assms
  by (auto split: if_splits option.splits sum.splits prod.splits dest: resolve_name_named)

lemma save_slides_inv:
  assumes "save_slides env ps saved z fs = Some (Inr (saved', z'), fs')"
    and "sorted_wrt (<) (map fst ps)"
  shows "\<exists>new newz. saved' = saved @ new \<and> z' = z @ newz
      \<and> (\<forall>img\<in>set new. \<exists>p\<in>set ps. img_order img = fst p + 1
             \<and> img_ocr_text img = strip (item_text (snd p))
             \<and> named_after (item_text (snd p)) (img_filename img)
             \<and> img_path img = os_path_join upload_folder (img_filename img))
      \<and> (\<forall>f\<in>set (namelist newz). f \<in> img_filename ` set new)
      \<and> sorted_wrt (<) (map img_order new)"
  using assms
proof (induction ps arbitrary: saved z fs)
  case Nil
  then show ?case by (simp add: namelist_def)
next
  case (Cons p rest)
  obtain idx slide where p: "p = (idx, slide)" by (cases p)
  from Cons.prems(2) have srt: "sorted_wrt (<) (map fst rest)"
    and lt: "\<forall>q\<in>set rest. idx < fst q" by (simp_all add: p)
  from save_slides_Cons [OF Cons.prems(1) [unfolded p]] obtain saved1 z1 fs1 where
    run: "save_slides env rest saved1 z1 fs1 = Some (Inr (saved', z'), fs')"
    and st: "saved1 = saved \<and> z1 = z
        \<or> (\<exists>f. named_after (item_text slide) f
               \<and> saved1 = saved @ [\<lparr>img_filename = f, img_ocr_text = strip (item_text slide),
                                     img_path = os_path_join upload_folder f,
                                     img_order = idx + 1\<rparr>]
               \<and> (z1 = z \<or> (\<exists>img. z1 = z @ [(f, img)])))" by blast
  from Cons.IH [OF run srt] obtain new newz where
    new: "saved' = saved1 @ new" "z' = z1 @ newz"
      "\<forall>img\<in>set new. \<exists>p\<in>set rest. img_order img = fst p + 1
             \<and> img_ocr_text img = strip (item_text (snd p))
             \<and> named_after (item_text (snd p)) (img_filename img)
             \<and> img_path img = os_path_join upload_folder (img_filename img)"
      "\<forall>f\<in>set (namelist newz). f \<in> img_filename ` set new"
      "sorted_wrt (<) (map img_order new)" by blast
  from st show ?case
  proof
    assume "saved1 = saved \<and> z1 = z"
    with new show ?thesis by (intro exI [of _ new] exI [of _ newz]) auto
  next
    assume "\<exists>f. named_after (item_text slide) f
               \<and> saved1 = saved @ [\<lparr>img_filename = f, img_ocr_text = strip (item_text slide),
                                     img_path = os_path_join upload_folder f,
                                     img_order = idx + 1\<rparr>]
               \<and> (z1 = z \<or> (\<exists>img. z1 = z @ [(f, img)]))"
    then obtain f where f: "named_after (item_text slide) f"
      "saved1 = saved @ [\<lparr>img_filename = f, img_ocr_text = strip (item_text slide),
                                     img_path = os_path_join upload_folder f,
                                     img_order = idx + 1\<rparr>]"
      "z1 = z \<or> (\<exists>img. z1 = z @ [(f, img)])" by blast
    let ?r = "\<lparr>img_filename = f, img_ocr_text = strip (item_text slide),
               img_path = os_path_join upload_folder f, img_order = idx + 1\<rparr>"
    from f(3) obtain hz where hz: "z1 = z @ hz" "set (namelist hz) \<subseteq> {f}"
      by (auto simp: namelist_def)
    have a: "saved' = saved @ (?r # new)" using new(1) f(2) by simp
    have b: "z' = z @ (hz @ newz)" using new(2) hz(1) by simp
    have c: "\<forall>img\<in>set (?r # new). \<exists>q\<in>set (p # rest). img_order img = fst q + 1
             \<and> img_ocr_text img = strip (item_text (snd q))
             \<and> named_after (item_text (snd q)) (img_filename img)
             \<and> img_path img = os_path_join upload_folder (img_filename img)"
      using new(3) f(1) p by auto
    have d: "\<forall>g\<in>set (namelist (hz @ newz)). g \<in> img_filename ` set (?r # new)"
      using new(4) hz(2) by (auto simp: namelist_def)
    have "\<forall>img\<in>set new. idx + 1 < img_order img" using new(3) lt by fastforce
    then have e: "sorted_wrt (<) (map img_order (?r # new))" using new(5) by simp
    from a b c d e show ?thesis by blast
  qed
qed

section \<open>\<open>save_brand_visual\<close> and the catalog\<close>

lemmas demo_simps = plain_env_def staged_s1_def staged_s2_def slide_a_def slide_b_def
  acme_request_def padded_request_def
  two_staged_images_def one_staged_image_def temp_path_of_def temp_dir_def upload_folder_def
  db_file_def os_path_join_def os_path_exists_def cv2_imread_def cv2_imwrite_def os_remove_def
  load_db_def save_db_def upload_taken_def archive_taken_def namelist_def
  resolve_name_def first_free.simps safe_name_def safe_char_def isalnum_def isspace_def
  strip_def numbered_def str_of_nat.simps digit_char_def Let_def

lemma save_db_load_db:
  "save_db env fs1 entries = Inr fs2 \<Longrightarrow> load_db env fs2 = Inr entries"
  by (auto simp: save_db_def load_db_def os_path_exists_def split: option.splits if_splits)

lemma save_brand_visual_success:
  assumes "save_brand_visual env data fs = Some (ZipAttachment n z, fs')"
  shows "\<exists>db saved fs1.
           load_db env fs = Inr db
           \<and> save_slides env (enumerate 0 (req_slides data)) [] [] fs = Some (Inr (saved, z), fs1)
           \<and> load_db env fs'
               = Inr (db @ [\<lparr>entry_id = uuid4 env,
                              entry_brand_name = strip (req_brandName data),
                              entry_sequence = req_sequence data,
                              entry_images = saved,
                              entry_created_at = now_isoformat env\<rparr>])"
  using assms
  by (auto simp: save_brand_visual_def Let_def
        split: if_splits option.splits sum.splits prod.splits dest: save_db_load_db)

lemma save_slides_enumerate:
  assumes "save_slides env (enumerate 0 slides) [] [] fs = Some (Inr (saved, z), fs1)"
  shows "(\<forall>img\<in>set saved. 1 \<le> img_order img \<and> img_order img \<le> length slides
             \<and> img_ocr_text img = strip (item_text (slides ! (img_order img - 1)))
             \<and> named_after (item_text (slides ! (img_order img - 1))) (img_filename img))
         \<and> (\<forall>f\<in>set (namelist z). \<exists>slide\<in>set slides. named_after (item_text slide) f)
         \<and> sorted_wrt (<) (map img_order saved)"
proof -
  have "sorted_wrt (<) (map fst (enumerate 0 slides))" by simp
  from save_slides_inv [OF assms this] have
    a: "\<forall>img\<in>set saved. \<exists>p\<in>set (enumerate 0 slides). img_order img = fst p + 1
             \<and> img_ocr_text img = strip (item_text (snd p))
             \<and> named_after (item_text (snd p)) (img_filename img)
             \<and> img_path img = os_path_join upload_folder (img_filename img)"
    and b: "\<forall>f\<in>set (namelist z). f \<in> img_filename ` set saved"
    and c: "sorted_wrt (<) (map img_order saved)" by auto
  have d: "\<forall>img\<in>set saved. 1 \<le> img_order img \<and> img_order img \<le> length slides
             \<and> img_ocr_text img = strip (item_text (slides ! (img_order img - 1)))
             \<and> named_after (item_text (slides ! (img_order img - 1))) (img_filename img)"
  proof
    fix img assume "img \<in> set saved"
    with a obtain p where p: "p \<in> set (enumerate 0 slides)" "img_order img = fst p + 1"
      "img_ocr_text img = strip (item_text (snd p))"
      "named_after (item_text (snd p)) (img_filename img)" by blast
    from p(1) have "fst p < length slides" "slides ! fst p = snd p"
      by (simp_all add: in_set_enumerate_eq)
    with p show "1 \<le> img_order img \<and> img_order img \<le> length slides
             \<and> img_ocr_text img = strip (item_text (slides ! (img_order img - 1)))
             \<and> named_after (item_text (slides ! (img_order img - 1))) (img_filename img)"
      by simp
  qed
  have e: "\<forall>f\<in>set (namelist z). \<exists>slide\<in>set slides. named_after (item_text slide) f"
  proof
    fix f assume "f \<in> set (namelist z)"
    with b obtain img where img: "img \<in> set saved" "f = img_filename img" by blast
    with d have "img_order img - 1 < length slides"
      "named_after (item_text (slides ! (img_order img - 1))) f" by auto
    then show "\<exists>slide\<in>set slides. named_after (item_text slide) f"
      using nth_mem by blast
  qed
  from d e c show ?thesis by blast
qed

text \<open>
  C5. After a successful \<open>save_brand_visual\<close> the catalog is the catalog before with one
  entry appended, and every image record of that entry carries as \<open>order\<close> the 1-based
  position in the request's slide list of the slide it was made from: the position is
  within the list, the record's \<open>ocr_text\<close> is that slide's stripped text and its file
  name is made for that text. The orders increase strictly along the list of records,
  so the records are in input order whatever the names are; slides that were skipped
  leave gaps.
\<close>

theorem save_brand_visual_order:
  assumes "save_brand_visual env data fs = Some (ZipAttachment n z, fs')"
  shows "\<exists>db e. load_db env fs = Inr db \<and> load_db env fs' = Inr (db @ [e])
     \<and> (\<forall>img\<in>set (entry_images e).
           1 \<le> img_order img \<and> img_order img \<le> length (req_slides data)
           \<and> img_ocr_text img = strip (item_text (req_slides data ! (img_order img - 1)))
           \<and> named_after (item_text (req_slides data ! (img_order img - 1))) (img_filename img))
     \<and> sorted_wrt (<) (map img_order (entry_images e))"
proof -
  from save_brand_visual_success [OF assms] obtain db saved fs1 where
    s: "load_db env fs = Inr db"
       "save_slides env (enumerate 0 (req_slides data)) [] [] fs = Some (Inr (saved, z), fs1)"
       "load_db env fs'
               = Inr (db @ [\<lparr>entry_id = uuid4 env,
                              entry_brand_name = strip (req_brandName data),
                              entry_sequence = req_sequence data,
                              entry_images = saved,
                              entry_created_at = now_isoformat env\<rparr>])" by blast
  from save_slides_enumerate [OF s(2)] s(1,3) show ?thesis by (intro exI) auto
qed

theorem save_brand_visual_order_witness:
  "\<exists>z fs' db e.
     save_brand_visual plain_env acme_request two_staged_images
       = Some (ZipAttachment ''brand_visual_slides.zip'' z, fs')
     \<and> load_db plain_env fs' = Inr (db @ [e])
     \<and> map img_ocr_text (entry_images e) = [''B'', ''A'']
     \<and> map img_order (entry_images e) = [1, 2]"
proof -
  obtain z fs' where run: "save_brand_visual plain_env acme_request two_staged_images
       = Some (ZipAttachment ''brand_visual_slides.zip'' z, fs')"
    and db: "load_db plain_env fs'
       = Inr ([] @ [\<lparr>entry_id = uuid4 plain_env, entry_brand_name = ''Acme'',
                       entry_sequence = 1,
                       entry_images =
                         [\<lparr>img_filename = ''B.png'', img_ocr_text = ''B'',
                           img_path = ''static/uploads/B.png'', img_order = 1\<rparr>,
                          \<lparr>img_filename = ''A.png'', img_ocr_text = ''A'',
                           img_path = ''static/uploads/A.png'', img_order = 2\<rparr>],
                       entry_created_at = now_isoformat plain_env\<rparr>])"
    by (simp add: save_brand_visual_def demo_simps)
  from save_brand_visual_order [OF run] obtain db' e where
    e: "load_db plain_env fs' = Inr (db' @ [e])"
       "sorted_wrt (<) (map img_order (entry_images e))" by blast
  from e(1) db have "e = \<lparr>entry_id = uuid4 plain_env, entry_brand_name = ''Acme'',
                       entry_sequence = 1,
                       entry_images =
                         [\<lparr>img_filename = ''B.png'', img_ocr_text = ''B'',
                           img_path = ''static/uploads/B.png'', img_order = 1\<rparr>,
                          \<lparr>img_filename = ''A.png'', img_ocr_text = ''A'',
                           img_path = ''static/uploads/A.png'', img_order = 2\<rparr>],
                       entry_created_at = now_isoformat plain_env\<rparr>" by simp
  then have "map img_ocr_text (entry_images e) = [''B'', ''A'']"
    and "map img_order (entry_images e) = [1, 2]" by simp_all
  with run e(1) show ?thesis
    by (intro exI [of _ z] exI [of _ fs'] exI [of _ db'] exI [of _ e]) simp
qed

section \<open>Names in all three handlers\<close>

lemma confirm_single_link:
  assumes "confirm_single env data fs = Some (DownloadLink link, fs')"
  shows "\<exists>f. link = ''/download/'' @ f \<and> named_after (item_text data) f"
  using assms
  by (auto simp: confirm_single_def Let_def
        split: if_splits option.splits sum.splits prod.splits dest: resolve_name_named)

lemma confirm_bulk_names:
  assumes "confirm_bulk env items fs = Some (ZipAttachment n z, fs')"
  shows "\<forall>f\<in>set (namelist z). \<exists>it\<in>set items. named_after (item_text it) f"
proof -
  from assms obtain fs1 where "confirm_bulk_items env items [] fs = Some (Inr z, fs1)"
    by (auto simp: confirm_bulk_def split: option.splits sum.splits prod.splits)
  from confirm_bulk_items_names [OF this] show ?thesis by simp
qed

text \<open>
  C10. In \<open>confirm_single\<close>, \<open>confirm_bulk\<close> and \<open>save_brand_visual\<close> every file name
  produced (the download link, each archive entry, each catalog image record) is the
  safe name of the stripped text of a request item, plain or with a counter, and so its
  stem neither starts nor ends with a space, although inner spaces are kept.
\<close>

theorem text_stripped_before_naming:
  "(confirm_single env data fs = Some (DownloadLink link, fs1) \<longrightarrow>
      (\<exists>f. link = ''/download/'' @ f \<and> named_after (item_text data) f \<and> no_outer_space f))
   \<and> (confirm_bulk env items fs = Some (ZipAttachment n2 z2, fs2) \<longrightarrow>
      (\<forall>f\<in>set (namelist z2).
          (\<exists>it\<in>set items. named_after (item_text it) f) \<and> no_outer_space f))
   \<and> (save_brand_visual env req fs = Some (ZipAttachment n3 z3, fs3) \<longrightarrow>
      (\<forall>f\<in>set (namelist z3).
          (\<exists>slide\<in>set (req_slides req). named_after (item_text slide) f) \<and> no_outer_space f)
      \<and> (\<exists>db e. load_db env fs3 = Inr (db @ [e])
            \<and> (\<forall>img\<in>set (entry_images e).
                  (\<exists>slide\<in>set (req_slides req).
                      img_ocr_text img = strip (item_text slide)
                      \<and> named_after (item_text slide) (img_filename img))
                  \<and> no_outer_space (img_filename img))))"
proof (intro conjI impI)
  assume "confirm_single env data fs = Some (DownloadLink link, fs1)"
  from confirm_single_link [OF this]
  show "\<exists>f. link = ''/download/'' @ f \<and> named_after (item_text data) f \<and> no_outer_space f"
    using named_after_no_outer_space by blast
next
  assume "confirm_bulk env items fs = Some (ZipAttachment n2 z2, fs2)"
  from confirm_bulk_names [OF this]
  show "\<forall>f\<in>set (namelist z2).
          (\<exists>it\<in>set items. named_after (item_text it) f) \<and> no_outer_space f"
    using named_after_no_outer_space by blast
next
  assume a: "save_brand_visual env req fs = Some (ZipAttachment n3 z3, fs3)"
  from save_brand_visual_success [OF a] obtain db saved fs' where
    s: "save_slides env (enumerate 0 (req_slides req)) [] [] fs = Some (Inr (saved, z3), fs')"
       "load_db env fs3
               = Inr (db @ [\<lparr>entry_id = uuid4 env,
                              entry_brand_name = strip (req_brandName req),
                              entry_sequence = req_sequence req,
                              entry_images = saved,
                              entry_created_at = now_isoformat env\<rparr>])" by blast
  note inv = save_slides_enumerate [OF s(1)]
  from inv show "\<forall>f\<in>set (namelist z3).
          (\<exists>slide\<in>set (req_slides req). named_after (item_text slide) f) \<and> no_outer_space f"
    using named_after_no_outer_space by blast
  have "\<forall>img\<in>set saved.
          (\<exists>slide\<in>set (req_slides req).
              img_ocr_text img = strip (item_text slide)
              \<and> named_after (item_text slide) (img_filename img))
          \<and> no_outer_space (img_filename img)"
  proof
    fix img assume "img \<in> set saved"
    with inv have i: "img_order img - 1 < length (req_slides req)"
      "img_ocr_text img = strip (item_text (req_slides req ! (img_order img - 1)))"
      "named_after (item_text (req_slides req ! (img_order img - 1))) (img_filename img)"
      by auto
    from i(1) have "req_slides req ! (img_order img - 1) \<in> set (req_slides req)" by simp
    with i(2,3) named_after_no_outer_space [OF i(3)]
    show "(\<exists>slide\<in>set (req_slides req).
              img_ocr_text img = strip (item_text slide)
              \<and> named_after (item_text slide) (img_filename img))
          \<and> no_outer_space (img_filename img)" by blast
  qed
  with s(2) show "\<exists>db e. load_db env fs3 = Inr (db @ [e])
            \<and> (\<forall>img\<in>set (entry_images e).
                  (\<exists>slide\<in>set (req_slides req).
                      img_ocr_text img = strip (item_text slide)
                      \<and> named_after (item_text slide) (img_filename img))
                  \<and> no_outer_space (img_filename img))"
    by (intro exI) auto
qed

theorem text_stripped_before_naming_witness:
  "\<exists>fs1 fs2 fs3.
     confirm_single plain_env staged_s1 one_staged_image
       = Some (DownloadLink ''/download/A.png'', fs1)
     \<and> confirm_bulk plain_env [staged_s1, staged_s2] two_staged_images
       = Some (ZipAttachment ''extracted_images.zip''
                 [(''A.png'', [1, 2, 3]), (''A_1.png'', [4, 5, 6])], fs2)
     \<and> save_brand_visual plain_env padded_request two_staged_images
       = Some (ZipAttachment ''brand_visual_slides.zip''
                 [(''A.png'', [1, 2, 3]), (''A_1.png'', [4, 5, 6])], fs3)
     \<and> no_outer_space ''A.png'' \<and> no_outer_space ''A_1.png''"
proof -
  obtain fs1 where r1: "confirm_single plain_env staged_s1 one_staged_image
       = Some (DownloadLink ''/download/A.png'', fs1)"
    by (simp add: confirm_single_def demo_simps)
  obtain fs2 where r2: "confirm_bulk plain_env [staged_s1, staged_s2] two_staged_images
       = Some (ZipAttachment ''extracted_images.zip''
                 [(''A.png'', [1, 2, 3]), (''A_1.png'', [4, 5, 6])], fs2)"
    by (simp add: confirm_bulk_def demo_simps)
  obtain fs3 where r3: "save_brand_visual plain_env padded_request two_staged_images
       = Some (ZipAttachment ''brand_visual_slides.zip''
                 [(''A.png'', [1, 2, 3]), (''A_1.png'', [4, 5, 6])], fs3)"
    by (simp add: save_brand_visual_def demo_simps)
  note t = text_stripped_before_naming [of plain_env staged_s1 one_staged_image
      "''/download/A.png''" fs1, THEN conjunct1, rule_format, OF r1]
  note u = text_stripped_before_naming [of plain_env _ two_staged_images _ _
      "[staged_s1, staged_s2]" "''extracted_images.zip''"
      "[(''A.png'', [1, 2, 3]), (''A_1.png'', [4, 5, 6])]" fs2,
      THEN conjunct2, THEN conjunct1, rule_format, OF r2]
  note v = text_stripped_before_naming [of plain_env _ two_staged_images _ _ _ _ _ _
      padded_request "''brand_visual_slides.zip''"
      "[(''A.png'', [1, 2, 3]), (''A_1.png'', [4, 5, 6])]" fs3,
      THEN conjunct2, THEN conjunct2, rule_format, OF r3]
  from t have "no_outer_space ''A.png''" by auto
  moreover from u have "no_outer_space ''A_1.png''" by (simp add: namelist_def)
  moreover from v have "no_outer_space ''A_1.png''" by (simp add: namelist_def)
  ultimately show ?thesis using r1 r2 r3 by blast
qed

section \<open>What the confirm handlers change\<close>

lemma os_remove_result:
  "os_remove env fs p = Inr fs1 \<Longrightarrow> \<exists>l. realpath env p = Some l \<and> fs1 = fs(l := None)"
  by (auto simp: os_remove_def split: option.splits fnode.splits)

lemma cv2_imwrite_result:
  "cv2_imwrite env fs p img = (ok, fs1) \<Longrightarrow>
     fs1 = fs \<or> (\<exists>l. realpath env p = Some l \<and> fs1 = fs(l \<mapsto> File (ImageData img)))"
  by (auto simp: cv2_imwrite_def split: option.splits if_splits)

lemma load_db_cong:
  assumes "\<And>l. realpath env db_file = Some l \<Longrightarrow> fs' l = fs l"
  shows "load_db env fs' = load_db env fs"
  using assms by (auto simp: load_db_def os_path_exists_def split: option.splits)

lemma confirm_bulk_items_step:
  assumes "confirm_bulk_items env (it # rest) z fs = Some (r, fs')"
  shows "fs' = fs
         \<or> (\<exists>z1 fs1. confirm_bulk_items env rest z1 fs1 = Some (r, fs')
               \<and> (fs1 = fs \<or> (\<exists>l. realpath env (temp_path_of it) = Some l
                                   \<and> fs1 = fs(l := None))))"
  using assms
  by (auto split: if_splits option.splits sum.splits dest!: os_remove_result)

lemma confirm_bulk_items_frame:
  assumes "confirm_bulk_items env items z fs = Some (r, fs')"
  shows "\<forall>l. fs' l \<noteq> fs l \<longrightarrow>
           fs' l = None \<and> (\<exists>it\<in>set items. realpath env (temp_path_of it) = Some l)"
  using assms
proof (induction items arbitrary: z fs)
  case Nil
  then show ?case by simp
next
  case (Cons it rest)
  from confirm_bulk_items_step [OF Cons.prems] show ?case
  proof
    assume "fs' = fs"
    then show ?thesis by simp
  next
    assume "\<exists>z1 fs1. confirm_bulk_items env rest z1 fs1 = Some (r, fs')
               \<and> (fs1 = fs \<or> (\<exists>l. realpath env (temp_path_of it) = Some l
                                   \<and> fs1 = fs(l := None)))"
    then obtain z1 fs1 where run: "confirm_bulk_items env rest z1 fs1 = Some (r, fs')"
      and st: "fs1 = fs \<or> (\<exists>l. realpath env (temp_path_of it) = Some l \<and> fs1 = fs(l := None))"
      by blast
    note ih = Cons.IH [OF run]
    from st show ?thesis
    proof
      assume "fs1 = fs"
      with ih show ?thesis by auto
    next
      assume "\<exists>l. realpath env (temp_path_of it) = Some l \<and> fs1 = fs(l := None)"
      then obtain l0 where l0: "realpath env (temp_path_of it) = Some l0" "fs1 = fs(l0 := None)"
        by blast
      show ?thesis
      proof (intro allI impI)
        fix l assume d: "fs' l \<noteq> fs l"
        show "fs' l = None \<and> (\<exists>it\<in>set (it # rest). realpath env (temp_path_of it) = Some l)"
        proof (cases "fs' l = fs1 l")
          case True
          with d l0 show ?thesis by (auto split: if_splits)
        next
          case False
          with ih show ?thesis by auto
        qed
      qed
    qed
  qed
qed

text \<open>
  What \<open>confirm_bulk\<close> does by design: it always returns (an archive has finitely many
  names, so its naming loop ends); it only deletes, and only what the temp paths of its
  items name. When none of them names the catalog file, the catalog is as before.
\<close>

lemma finite_archive_taken: "finite {f. valid_png_name f \<and> archive_taken z f}"
  by (simp add: archive_taken_def)

lemma confirm_bulk_items_total: "\<exists>r. confirm_bulk_items env items z fs = Some r"
proof (induction items arbitrary: z fs)
  case Nil
  show ?case by simp
next
  case (Cons it rest)
  from resolve_name_total [OF finite_archive_taken, of z "strip (item_text it)"]
  obtain f where f: "resolve_name (archive_taken z) (strip (item_text it)) = Some f" by blast
  show ?case using Cons.IH f
    by (auto split: option.splits sum.splits)
qed

lemma confirm_bulk_total: "\<exists>resp fs'. confirm_bulk env items fs = Some (resp, fs')"
proof -
  from confirm_bulk_items_total [of env items "[]" fs]
  obtain r fs' where "confirm_bulk_items env items [] fs = Some (r, fs')" by fastforce
  then show ?thesis by (cases r) (simp_all add: confirm_bulk_def)
qed

lemma confirm_bulk_only_deletes:
  assumes "confirm_bulk env items fs = Some (resp, fs')"
  shows "\<forall>l. fs' l \<noteq> fs l \<longrightarrow>
           fs' l = None \<and> (\<exists>it\<in>set items. realpath env (temp_path_of it) = Some l)"
proof -
  from assms obtain r where "confirm_bulk_items env items [] fs = Some (r, fs')"
    by (auto simp: confirm_bulk_def split: option.splits sum.splits prod.splits)
  then show ?thesis by (rule confirm_bulk_items_frame)
qed

lemma confirm_bulk_keeps_catalog:
  assumes "confirm_bulk env items fs = Some (resp, fs')"
    and "\<forall>it\<in>set items. realpath env (temp_path_of it) \<noteq> realpath env db_file"
  shows "load_db env fs' = load_db env fs"
proof (rule load_db_cong)
  fix l assume "realpath env db_file = Some l"
  with assms(2) have "\<forall>it\<in>set items. realpath env (temp_path_of it) \<noteq> Some l" by simp
  with confirm_bulk_only_deletes [OF assms(1)] show "fs' l = fs l" by blast
qed

lemma confirm_single_frame:
  assumes "confirm_single env data fs = Some (resp, fs')"
  shows "\<forall>l. fs' l \<noteq> fs l \<longrightarrow>
           realpath env (temp_path_of data) = Some l
           \<or> (\<exists>f. named_after (item_text data) f
                  \<and> realpath env (os_path_join upload_folder f) = Some l)"
  using assms
  by (auto simp: confirm_single_def Let_def
        split: if_splits option.splits sum.splits prod.splits
        dest!: os_remove_result cv2_imwrite_result dest: resolve_name_named)

lemma confirm_single_keeps_catalog:
  assumes "confirm_single env data fs = Some (resp, fs')"
    and "realpath env (temp_path_of data) \<noteq> realpath env db_file"
    and "\<forall>f. realpath env (os_path_join upload_folder f) \<noteq> realpath env db_file"
  shows "load_db env fs' = load_db env fs"
proof (rule load_db_cong)
  fix l assume "realpath env db_file = Some l"
  with assms(2,3) confirm_single_frame [OF assms(1)] show "fs' l = fs l" by metis
qed

section \<open>Where the code departs from the specification\<close>

lemma normpath_catalog_item:
  "normpath ''static/temp/../../brand_visual_db.json'' = ''brand_visual_db.json''"
  by (simp add: normpath_def)

lemma normpath_db_file: "normpath ''brand_visual_db.json'' = ''brand_visual_db.json''"
  by (simp add: normpath_def)

lemma normpath_upload_item:
  "normpath ''static/temp/../uploads/Acme.png'' = ''static/uploads/Acme.png''"
  by (simp add: normpath_def)

lemma normpath_x: "normpath ''static/uploads/x.png'' = ''static/uploads/x.png''"
  by (simp add: normpath_def)

lemmas lexical_simps = lexical_env_def catalog_only_def upload_only_def catalog_item_def
  upload_item_def no_files_def acme_entry_def
  normpath_catalog_item normpath_db_file normpath_upload_item normpath_x
  temp_path_of_def temp_dir_def upload_folder_def
  db_file_def os_path_join_def os_path_exists_def cv2_imread_def cv2_imwrite_def os_remove_def
  load_db_def save_db_def upload_taken_def archive_taken_def namelist_def
  resolve_name_def first_free.simps safe_name_def safe_char_def isalnum_def isspace_def
  strip_def numbered_def str_of_nat.simps digit_char_def Let_def

text \<open>
  C6 fails on the code. The handlers build the temp path from the request's \<open>id\<close> and
  \<open>ext\<close> as they come (lines 294 and 334), so an \<open>id\<close> with \<open>..\<close> names a file outside
  the staging directory. With \<open>id = ../../brand_visual_db\<close> and \<open>ext = .json\<close> the temp
  path is the catalog file: it exists, it does not decode as an image, and both
  \<open>confirm_bulk\<close> and \<open>confirm_single\<close> remove it, after which the catalog loads as
  empty. With \<open>id = ../uploads/Acme\<close> and \<open>ext = .png\<close>, \<open>confirm_bulk\<close> packs a
  confirmed image of the upload folder into the archive and deletes it from permanent
  storage.
\<close>

theorem confirm_deletes_catalog:
  "load_db lexical_env catalog_only = Inr [acme_entry]
   \<and> confirm_bulk lexical_env [catalog_item] catalog_only
       = Some (ZipAttachment ''extracted_images.zip'' [], no_files)
   \<and> confirm_single lexical_env catalog_item catalog_only
       = Some (JsonError 500 ''Failed to process image'', no_files)
   \<and> load_db lexical_env no_files = Inr []
   \<and> confirm_bulk lexical_env [upload_item] upload_only
       = Some (ZipAttachment ''extracted_images.zip'' [(''x.png'', [7, 7, 7])], no_files)"
  by (simp add: confirm_bulk_def confirm_single_def lexical_simps)

text \<open>
  C7 fails on the code, by the same defect: \<open>get_brand_visuals\<close> lists one entry, a
  \<open>confirm_single\<close> request whose \<open>id\<close> climbs to the catalog file is answered 500 and
  removes that file, and \<open>get_brand_visuals\<close> then lists no entry.
\<close>

theorem catalog_entry_removed:
  "get_brand_visuals lexical_env catalog_only = (CatalogJson [acme_entry], catalog_only)
   \<and> confirm_single lexical_env catalog_item catalog_only
       = Some (JsonError 500 ''Failed to process image'', no_files)
   \<and> get_brand_visuals lexical_env no_files = (CatalogJson [], no_files)"
  by (simp add: get_brand_visuals_def confirm_single_def lexical_simps)

text \<open>
  C3 fails on the code. \<open>upload\<close> and \<open>upload_brand_slides\<close> answer 400 when no file
  survives (lines 103-104 and 145-146), but \<open>confirm_bulk\<close> and \<open>save_brand_visual\<close>
  have no such check: when no staged file of the request exists, \<open>confirm_bulk\<close> sends
  an empty archive with status 200, and \<open>save_brand_visual\<close> sends an empty archive
  with status 200 and appends a catalog entry without images.
\<close>

theorem empty_batch_succeeds:
  "confirm_bulk plain_env [staged_s1] no_files
     = Some (ZipAttachment ''extracted_images.zip'' [], no_files)
   \<and> status (ZipAttachment ''extracted_images.zip'' []) = 200
   \<and> save_brand_visual plain_env acme_request no_files
     = Some (ZipAttachment ''brand_visual_slides.zip'' [],
         [''brand_visual_db.json'' \<mapsto>
            File (CatalogData
              [\<lparr>entry_id = uuid4 plain_env, entry_brand_name = ''Acme'', entry_sequence = 1,
                 entry_images = [], entry_created_at = now_isoformat plain_env\<rparr>])])
   \<and> status (ZipAttachment ''brand_visual_slides.zip'' []) = 200"
  by (simp add: confirm_bulk_def save_brand_visual_def demo_simps no_files_def)




end
